theory Spec2Isabelle
  imports Main "HOL-Library.Word" "HOL-Library.Sublist"
begin

section \<open>The metadata tree of \<^verbatim>\<open>volume.cc\<close>\<close>

subsection \<open>Values of the plugin API\<close>

text \<open>
  \<^verbatim>\<open>pp::Var\<close> is the dynamically typed value of the plugin API; the metadata tree is
  built from dictionaries, strings and booleans. A dictionary is kept as an association
  list. \<^verbatim>\<open>pp::Var\<close> handles share their referent, but \<^verbatim>\<open>ConstructMetadata\<close> stores
  every dictionary it changed back into its parent before it returns, so the tree
  reachable from the root is the one computed here by value.
\<close>

datatype var =
    Undefined
  | Null
  | VBool bool
  | VString string
  | VDictionary "(string \<times> var) list"

fun is_undefined :: "var \<Rightarrow> bool" where
  "is_undefined Undefined = True"
| "is_undefined _ = False"

fun is_dictionary :: "var \<Rightarrow> bool" where
  "is_dictionary (VDictionary _) = True"
| "is_dictionary _ = False"

text \<open>\<^verbatim>\<open>pp::VarDictionary(const pp::Var&)\<close>: a non-dictionary becomes the null value.\<close>

fun VarDictionary :: "var \<Rightarrow> var" where
  "VarDictionary (VDictionary kvs) = VDictionary kvs"
| "VarDictionary _ = Null"

text \<open>\<^verbatim>\<open>Get\<close> answers undefined for a missing key and on a non-dictionary.\<close>

fun Get :: "var \<Rightarrow> string \<Rightarrow> var" where
  "Get (VDictionary kvs) k = (case map_of kvs k of None \<Rightarrow> Undefined | Some v \<Rightarrow> v)"
| "Get _ k = Undefined"

fun set_key :: "string \<Rightarrow> var \<Rightarrow> (string \<times> var) list \<Rightarrow> (string \<times> var) list" where
  "set_key k v [] = [(k, v)]"
| "set_key k v ((k', v') # kvs) =
     (if k' = k then (k, v) # kvs else (k', v') # set_key k v kvs)"

text \<open>\<^verbatim>\<open>Set\<close> replaces or adds the key; on a non-dictionary it does nothing.\<close>

fun Set :: "var \<Rightarrow> string \<Rightarrow> var \<Rightarrow> var" where
  "Set (VDictionary kvs) k v = VDictionary (set_key k v kvs)"
| "Set d k v = d"

fun AsBool :: "var \<Rightarrow> bool" where
  "AsBool (VBool b) = b"
| "AsBool _ = False"

subsection \<open>Printing integers\<close>

text \<open>\<^verbatim>\<open>std::stringstream << int64_t\<close>: the decimal digits, with a minus sign when negative.\<close>

fun digits :: "nat \<Rightarrow> string" where
  "digits n =
     (if n < 10 then [''0123456789'' ! n]
      else digits (n div 10) @ [''0123456789'' ! (n mod 10)])"

declare digits.simps [simp del]

definition to_string :: "int \<Rightarrow> string" where
  "to_string i = (if i < 0 then CHR ''-'' # digits (nat (- i)) else digits (nat i))"

subsection \<open>CreateEntry and ConstructMetadata\<close>

definition kPathDelimiter :: string where
  "kPathDelimiter = ''/''"

definition CreateEntry :: "string \<Rightarrow> bool \<Rightarrow> int \<Rightarrow> int \<Rightarrow> var" where
  "CreateEntry name is_directory sz modification_time =
     (let entry_metadata = VDictionary [];
          entry_metadata = Set entry_metadata ''isDirectory'' (VBool is_directory);
          entry_metadata = Set entry_metadata ''name'' (VString name);
          entry_metadata = Set entry_metadata ''size'' (VString (to_string sz));
          entry_metadata =
            Set entry_metadata ''modificationTime'' (VString (to_string modification_time))
      in if is_directory then Set entry_metadata ''entries'' (VDictionary [])
         else entry_metadata)"

text \<open>
  \<^verbatim>\<open>std::string::find\<close>: the first position where the pattern starts, \<open>None\<close> for
  \<^verbatim>\<open>npos\<close>. The module is built for Native Client, whose \<^verbatim>\<open>size_t\<close> has the 32 bits of
  the \<^verbatim>\<open>unsigned int\<close> the position is stored in, so the comparison with \<^verbatim>\<open>npos\<close>
  is exact.
\<close>

fun find_from :: "nat \<Rightarrow> string \<Rightarrow> string \<Rightarrow> nat option" where
  "find_from i pat [] = (if pat = [] then Some i else None)"
| "find_from i pat (c # cs) =
     (if prefix pat (c # cs) then Some i else find_from (Suc i) pat cs)"

definition find_str :: "string \<Rightarrow> string \<Rightarrow> nat option" where
  "find_str s pat = find_from 0 pat s"

function ConstructMetadata :: "string \<Rightarrow> int \<Rightarrow> bool \<Rightarrow> int \<Rightarrow> var \<Rightarrow> var" where
  "ConstructMetadata entry_path sz is_directory modification_time parent_metadata =
     (if entry_path = [] then parent_metadata
      else
        let parent_entries = VarDictionary (Get parent_metadata ''entries'') in
        case find_str entry_path kPathDelimiter of
          None \<Rightarrow>
            let entry_name = entry_path;
                entry_metadata = CreateEntry entry_name is_directory sz modification_time;
                old_entry_metadata_var = Get parent_entries entry_name;
                entry_metadata =
                  (if \<not> is_undefined old_entry_metadata_var
                   then let old_entry_metadata = VarDictionary old_entry_metadata_var
                        in Set entry_metadata ''entries'' (Get old_entry_metadata ''entries'')
                   else entry_metadata);
                parent_entries = Set parent_entries entry_name entry_metadata
            in Set parent_metadata ''entries'' parent_entries
        | Some position \<Rightarrow>
            let entry_name = take position entry_path;
                entry_metadata_var = Get parent_entries entry_name;
                entry_metadata =
                  (if is_undefined entry_metadata_var
                   then CreateEntry entry_name True 0 modification_time
                   else VarDictionary (Get parent_entries entry_name));
                entry_path_without_next_parent =
                  drop (position + length kPathDelimiter) entry_path;
                entry_metadata =
                  ConstructMetadata entry_path_without_next_parent sz is_directory
                    modification_time entry_metadata;
                parent_entries = Set parent_entries entry_name entry_metadata
            in Set parent_metadata ''entries'' parent_entries)"
  by pat_completeness auto
termination
  by (relation "measure (\<lambda>(entry_path, _). length entry_path)")
     (auto simp: kPathDelimiter_def)

subsection \<open>Reading a tree\<close>

definition entries_of :: "var \<Rightarrow> (string \<times> var) list" where
  "entries_of d = (case Get d ''entries'' of VDictionary es \<Rightarrow> es | _ \<Rightarrow> [])"

lemma size_map_of: "map_of kvs k = Some v \<Longrightarrow> size v < size (VDictionary kvs)"
  by (induction kvs) (auto split: if_splits)

lemma size_member: "(k, v) \<in> set kvs \<Longrightarrow> size v < size (VDictionary kvs)"
  by (induction kvs) auto

lemma size_entries_of: "(k, v) \<in> set (entries_of d) \<Longrightarrow> size v < size d"
proof (cases d)
  case (VDictionary kvs)
  assume m: "(k, v) \<in> set (entries_of d)"
  show ?thesis
  proof (cases "map_of kvs ''entries''")
    case None
    with m VDictionary show ?thesis by (simp add: entries_of_def)
  next
    case (Some e)
    with m VDictionary obtain es where e: "e = VDictionary es" and kv: "(k, v) \<in> set es"
      by (cases e) (auto simp: entries_of_def)
    from kv have "size v < size e" unfolding e by (rule size_member)
    also from Some have "size e < size d" unfolding VDictionary by (rule size_map_of)
    finally show ?thesis .
  qed
qed (simp_all add: entries_of_def)

text \<open>Every node of a tree: the node itself, then the nodes below each of its entries.\<close>

function nodes :: "var \<Rightarrow> var list" where
  "nodes d = d # concat (map (\<lambda>kv. nodes (snd kv)) (entries_of d))"
  by pat_completeness auto
termination
  by (relation "measure size") (auto simp: size_entries_of)

declare nodes.simps [simp del]

lemma nodes_VDictionary:
  "nodes (VDictionary kvs) =
     VDictionary kvs # concat (map (\<lambda>kv. nodes (snd kv)) (entries_of (VDictionary kvs)))"
  by (rule nodes.simps)

definition named :: "string \<Rightarrow> var \<Rightarrow> bool" where
  "named n d = (Get d ''name'' = VString n)"

text \<open>A node has an \<^verbatim>\<open>entries\<close> dictionary exactly when its \<^verbatim>\<open>isDirectory\<close> is true.\<close>

definition entries_iff_directory :: "var \<Rightarrow> bool" where
  "entries_iff_directory d =
     (is_dictionary (Get d ''entries'') = AsBool (Get d ''isDirectory''))"

text \<open>The root that \<^verbatim>\<open>ReadMetadataCallback\<close> starts from.\<close>

definition root_metadata :: var where
  "root_metadata = CreateEntry kPathDelimiter True 0 0"

lemmas metadata_eval =
  Let_def CreateEntry_def kPathDelimiter_def find_str_def entries_of_def
  nodes_VDictionary named_def entries_iff_directory_def root_metadata_def

section \<open>The request dispatch of \<^verbatim>\<open>volume.cc\<close>\<close>

text \<open>
  \<^verbatim>\<open>PP_DCHECK\<close> is \<^verbatim>\<open>assert\<close>: this development models the release build, where it is
  compiled out. The lock around the registry is acquired and released on every path of
  the functions below; the model is sequential and leaves it out.
\<close>

subsection \<open>Collaborators\<close>

text \<open>
  \<^verbatim>\<open>VolumeArchive\<close> is an abstract class; \<^verbatim>\<open>Volume\<close> only calls its methods. They are
  taken as functions over an unspecified object state \<open>'a\<close>. \<^verbatim>\<open>ReadData\<close> answers the
  success flag, what it left in the destination buffer, and the changed object. The two
  \<^verbatim>\<open>reader\<close> methods are the ones of the \<^verbatim>\<open>VolumeReaderJavaScriptStream\<close> the archive owns.
\<close>

record 'd VarArrayBuffer =
  ByteLength :: "32 word"
  Map :: 'd

record ('a, 'd) VolumeArchive =
  va_request_id :: "'a \<Rightarrow> string"
  va_error_message :: "'a \<Rightarrow> string"
  va_ReadData :: "'a \<Rightarrow> 64 word \<Rightarrow> 32 word \<Rightarrow> bool \<times> 'd \<times> 'a"
  va_Cleanup :: "'a \<Rightarrow> bool \<times> 'a"
  reader_SetBufferAndSignal :: "'a \<Rightarrow> 'd VarArrayBuffer \<Rightarrow> 64 word \<Rightarrow> 'a"
  reader_ReadErrorSignal :: "'a \<Rightarrow> 'a"

text \<open>
  What \<^verbatim>\<open>Volume\<close> does to the outside, in order: the messages handed to
  \<^verbatim>\<open>message_sender_\<close>, and the calls of \<^verbatim>\<open>ReadData\<close> with the offset, the length and the
  flag that came back.
\<close>

datatype 'd call =
    ReadData_call "64 word" "32 word" bool
  | SendFileSystemError string string string
  | SendReadFileDone string string "'d VarArrayBuffer" bool

record ('a, 'd) Volume =
  file_system_id :: string
  worker_reads_in_progress :: "string \<rightharpoonup> 'a"
  calls :: "'d call list"

text \<open>
  The dictionary of a read request, with its three entries already decoded
  (\<^verbatim>\<open>AsString\<close>, \<^verbatim>\<open>request::GetInt64FromString\<close>, \<^verbatim>\<open>AsInt\<close>).
\<close>

record ReadFile_dictionary =
  kOpenRequestId :: string
  kOffset :: "64 word"
  kLength :: "32 word"

subsection \<open>Registry\<close>

definition GetVolumeArchive :: "('a, 'd) Volume \<Rightarrow> string \<Rightarrow> 'a option" where
  "GetVolumeArchive v request_id = worker_reads_in_progress v request_id"

definition message_sender :: "('a, 'd) Volume \<Rightarrow> 'd call \<Rightarrow> ('a, 'd) Volume" where
  "message_sender v m = v\<lparr>calls := calls v @ [m]\<rparr>"

definition CleanupVolumeArchive ::
  "('a, 'd) VolumeArchive \<Rightarrow> ('a, 'd) Volume \<Rightarrow> 'a \<Rightarrow> bool \<Rightarrow> bool \<times> ('a, 'd) Volume"
where
  "CleanupVolumeArchive ops v volume_archive post_cleanup_error =
     (let v = v\<lparr>worker_reads_in_progress :=
                  (worker_reads_in_progress v)(va_request_id ops volume_archive := None)\<rparr>;
          (cleaned, volume_archive) = va_Cleanup ops volume_archive
      in if \<not> cleaned \<and> post_cleanup_error
         then (False, message_sender v
                 (SendFileSystemError (file_system_id v)
                    (va_request_id ops volume_archive)
                    (va_error_message ops volume_archive)))
         else (True, v))"

subsection \<open>Chunk notifications\<close>

definition ReadChunkDone ::
  "('a, 'd) VolumeArchive \<Rightarrow> ('a, 'd) Volume \<Rightarrow> string \<Rightarrow> 'd VarArrayBuffer \<Rightarrow> 64 word
     \<Rightarrow> ('a, 'd) Volume"
where
  "ReadChunkDone ops v request_id array_buffer read_offset =
     (case GetVolumeArchive v request_id of
        None \<Rightarrow> v
      | Some volume_archive \<Rightarrow>
          v\<lparr>worker_reads_in_progress := (worker_reads_in_progress v)
               (request_id \<mapsto>
                  reader_SetBufferAndSignal ops volume_archive array_buffer read_offset)\<rparr>)"

definition ReadChunkError ::
  "('a, 'd) VolumeArchive \<Rightarrow> ('a, 'd) Volume \<Rightarrow> string \<Rightarrow> ('a, 'd) Volume"
where
  "ReadChunkError ops v request_id =
     (case GetVolumeArchive v request_id of
        None \<Rightarrow> v
      | Some volume_archive \<Rightarrow>
          v\<lparr>worker_reads_in_progress := (worker_reads_in_progress v)
               (request_id \<mapsto> reader_ReadErrorSignal ops volume_archive)\<rparr>)"

subsection \<open>ReadFile\<close>

definition kReadBufferSizeMax :: "32 word" where
  "kReadBufferSizeMax = 512 * 1024"

lemma sint_kReadBufferSizeMax: "sint kReadBufferSizeMax = 524288"
  by (simp add: kReadBufferSizeMax_def)

lemma sint_range32: "- 2147483648 \<le> sint (w :: 32 word) \<and> sint w < 2147483648"
  using sint_ge [of w] sint_lt [of w] by simp

lemma sint_minus_kReadBufferSizeMax:
  assumes "kReadBufferSizeMax <s len"
  shows "sint (len - kReadBufferSizeMax) = sint len - 524288"
proof -
  from assms have gt: "524288 < sint len"
    by (simp add: word_sless_alt sint_kReadBufferSizeMax)
  have "sint (len - kReadBufferSizeMax) = signed_take_bit 31 (sint len - 524288)"
    by (simp add: sint_word_ariths sint_kReadBufferSizeMax)
  also have "\<dots> = sint len - 524288"
    using gt sint_range32 [of len] by (simp add: signed_take_bit_int_eq_self)
  finally show ?thesis .
qed

text \<open>
  The \<^verbatim>\<open>while (length > 0)\<close> loop of \<^verbatim>\<open>ReadFileCallback\<close>: \<^verbatim>\<open>length\<close> is an
  \<^verbatim>\<open>int32_t\<close> and \<^verbatim>\<open>offset\<close> an \<^verbatim>\<open>int64_t\<close>; the comparisons are signed, and
  \<^verbatim>\<open>offset += buffer_size\<close> sign-extends the size (an overflow of the offset wraps here).
  The result is the archive object as the calls of \<^verbatim>\<open>ReadData\<close> left it, and what the
  loop did to the outside.
\<close>

function ReadFile_loop ::
  "('a, 'd) VolumeArchive \<Rightarrow> string \<Rightarrow> string \<Rightarrow> 'a \<Rightarrow> 64 word \<Rightarrow> 32 word \<Rightarrow> 'a \<times> 'd call list"
where
  "ReadFile_loop ops fsid request_id volume_archive offset len =
     (if 0 <s len then
        let (has_more_data, buffer_size) =
              (if kReadBufferSizeMax <s len then (True, kReadBufferSizeMax)
               else (False, len));
            (ok, array_buffer_data, volume_archive) =
              va_ReadData ops volume_archive offset buffer_size
        in if \<not> ok
           then (volume_archive,
                 [ReadData_call offset buffer_size False,
                  SendFileSystemError fsid request_id (va_error_message ops volume_archive)])
           else
             let (volume_archive', rest) =
                   ReadFile_loop ops fsid request_id volume_archive
                     (offset + scast buffer_size) (len - buffer_size)
             in (volume_archive',
                 ReadData_call offset buffer_size True
                 # SendReadFileDone fsid request_id
                     \<lparr>ByteLength = buffer_size, Map = array_buffer_data\<rparr> has_more_data
                 # rest)
      else (volume_archive, []))"
  by pat_completeness auto
termination
proof (relation "measure (\<lambda>(ops, fsid, request_id, volume_archive, offset, len). nat (sint len))")
  show "wf (measure (\<lambda>(ops :: ('a, 'd) VolumeArchive, fsid :: string, request_id :: string,
                       volume_archive :: 'a, offset :: 64 word, len :: 32 word).
                     nat (sint len)))"
    by simp
next
  fix ops :: "('a, 'd) VolumeArchive" and fsid request_id :: string and volume_archive :: 'a
    and offset :: "64 word" and len :: "32 word"
    and x :: "bool \<times> 32 word" and has_more_data buffer_size
    and y :: "bool \<times> 'd \<times> 'a" and ok z array_buffer_data volume_archive'
  assume pos: "0 <s len"
    and x: "x = (if kReadBufferSizeMax <s len then (True, kReadBufferSizeMax) else (False, len))"
    and hb: "(has_more_data, buffer_size) = x"
  from pos have p: "0 < sint len" by (simp add: word_sless_alt)
  have "sint (len - buffer_size) < sint len"
  proof (cases "kReadBufferSizeMax <s len")
    case True
    with x hb have "buffer_size = kReadBufferSizeMax" by simp
    with True show ?thesis by (simp add: sint_minus_kReadBufferSizeMax)
  next
    case False
    with x hb have "buffer_size = len" by simp
    with p show ?thesis by simp
  qed
  with p show "((ops, fsid, request_id, volume_archive', offset + scast buffer_size,
                 len - buffer_size),
                ops, fsid, request_id, volume_archive, offset, len)
               \<in> measure (\<lambda>(ops, fsid, request_id, volume_archive, offset, len). nat (sint len))"
    by simp
qed

declare ReadFile_loop.simps [simp del]

text \<open>
  \<^verbatim>\<open>ReadFileCallback\<close>. Without an archive for the open request the first
  \<^verbatim>\<open>volume_archive->ReadData\<close> dereferences a null pointer: the result \<open>None\<close>.
\<close>

definition ReadFileCallback ::
  "('a, 'd) VolumeArchive \<Rightarrow> ('a, 'd) Volume \<Rightarrow> string \<Rightarrow> ReadFile_dictionary
     \<Rightarrow> ('a, 'd) Volume option"
where
  "ReadFileCallback ops v request_id dictionary =
     (let open_request_id = kOpenRequestId dictionary;
          offset = kOffset dictionary;
          len = kLength dictionary
      in case GetVolumeArchive v open_request_id of
           None \<Rightarrow> if 0 <s len then None else Some v
         | Some volume_archive \<Rightarrow>
             let (volume_archive, done) =
                   ReadFile_loop ops (file_system_id v) request_id volume_archive offset len
             in Some (v\<lparr>worker_reads_in_progress :=
                           (worker_reads_in_progress v)(open_request_id \<mapsto> volume_archive),
                         calls := calls v @ done\<rparr>))"

subsection \<open>Reading the calls\<close>

fun is_SendFileSystemError :: "'d call \<Rightarrow> bool" where
  "is_SendFileSystemError (SendFileSystemError _ _ _) = True"
| "is_SendFileSystemError _ = False"

fun read_failed :: "'d call \<Rightarrow> bool" where
  "read_failed (ReadData_call _ _ ok) = (\<not> ok)"
| "read_failed _ = False"

text \<open>The sizes and the has-more flags of the data chunks sent, and the offsets read at.\<close>

fun chunk_sizes :: "'d call list \<Rightarrow> int list" where
  "chunk_sizes [] = []"
| "chunk_sizes (SendReadFileDone _ _ array_buffer _ # cs) =
     sint (ByteLength array_buffer) # chunk_sizes cs"
| "chunk_sizes (_ # cs) = chunk_sizes cs"

fun chunk_flags :: "'d call list \<Rightarrow> bool list" where
  "chunk_flags [] = []"
| "chunk_flags (SendReadFileDone _ _ _ has_more_data # cs) = has_more_data # chunk_flags cs"
| "chunk_flags (_ # cs) = chunk_flags cs"

fun read_offsets :: "'d call list \<Rightarrow> 64 word list" where
  "read_offsets [] = []"
| "read_offsets (ReadData_call offset _ _ # cs) = offset # read_offsets cs"
| "read_offsets (_ # cs) = read_offsets cs"

text \<open>What the request added to the calls of the volume.\<close>

definition emitted :: "('a, 'd) Volume \<Rightarrow> ('a, 'd) Volume \<Rightarrow> 'd call list" where
  "emitted v v' = drop (length (calls v)) (calls v')"

text \<open>
  A stand-in archive in the manner of the fakes of the unit tests, used to run the
  dispatch on concrete requests: its state counts the calls of \<^verbatim>\<open>ReadData\<close> that will
  still succeed, and its \<^verbatim>\<open>Cleanup\<close> fails.
\<close>

definition FakeVolumeArchive :: "(nat, unit) VolumeArchive" where
  "FakeVolumeArchive =
     \<lparr>va_request_id = (\<lambda>_. ''1''),
      va_error_message = (\<lambda>_. ''fake error''),
      va_ReadData = (\<lambda>n offset len. (0 < n, (), n - 1)),
      va_Cleanup = (\<lambda>n. (False, n)),
      reader_SetBufferAndSignal = (\<lambda>n array_buffer read_offset. Suc n),
      reader_ReadErrorSignal = (\<lambda>n. 0)\<rparr>"

definition fake_volume :: "nat \<Rightarrow> (nat, unit) Volume" where
  "fake_volume n =
     \<lparr>file_system_id = ''fs'', worker_reads_in_progress = [''1'' \<mapsto> n], calls = []\<rparr>"

text \<open>
  A read of 600000 bytes at offset 100 of the file opened by request 1, and the volume
  after it: two reads, of which the second succeeds or fails.
\<close>

definition fake_request :: ReadFile_dictionary where
  "fake_request = \<lparr>kOpenRequestId = ''1'', kOffset = 100, kLength = 600000\<rparr>"

definition fake_volume_after :: "nat \<Rightarrow> bool \<Rightarrow> (nat, unit) Volume" where
  "fake_volume_after n second_ok =
     \<lparr>file_system_id = ''fs'', worker_reads_in_progress = [''1'' \<mapsto> n],
      calls =
        [ReadData_call 100 524288 True,
         SendReadFileDone ''fs'' ''2'' \<lparr>ByteLength = 524288, Map = ()\<rparr> True,
         ReadData_call 524388 75712 second_ok,
         (if second_ok
          then SendReadFileDone ''fs'' ''2'' \<lparr>ByteLength = 75712, Map = ()\<rparr> False
          else SendFileSystemError ''fs'' ''2'' ''fake error'')]\<rparr>"

subsection \<open>The steps of the loop\<close>

text \<open>The size of the next buffer, as the loop chooses it.\<close>

definition buffer_size_of :: "32 word \<Rightarrow> 32 word" where
  "buffer_size_of len = (if kReadBufferSizeMax <s len then kReadBufferSizeMax else len)"

text \<open>
  The byte ranges a read of \<open>n\<close> bytes at \<open>offset\<close> is cut into, with the has-more flag
  of each: used to describe the calls of a loop in which no read fails.
\<close>

function windows :: "64 word \<Rightarrow> int \<Rightarrow> (64 word \<times> int \<times> bool) list" where
  "windows offset n =
     (if 0 < n
      then (offset, min n 524288, 524288 < n)
           # windows (offset + word_of_int (min n 524288)) (n - min n 524288)
      else [])"
  by pat_completeness auto
termination
  by (relation "measure (\<lambda>(offset, n). nat n)") auto

declare windows.simps [simp del]

section \<open>The windowed read of an archive session\<close>

text \<open>
  \<^verbatim>\<open>VolumeArchiveLibarchive::ReadData\<close> is exercised by the unit test of the repository,
  but its file, the decoder behind it and the header with its constants are not among
  the sources. The definitions of this section follow the specification's description of
  the decoder capability and of the windowed read.
\<close>

text \<open>
  Modelled from the spec: the constants of \<^verbatim>\<open>volume_archive_constants\<close> (missing header):
  the prefix of the read error message and the maximum size of one decode call. Their
  values are not known here, so they are parameters.
\<close>

record volume_archive_constants =
  kArchiveReadDataErrorPrefix :: string
  kMaximumDataChunkSize :: nat

text \<open>
  Modelled from the spec: the archive session of the missing
  \<^verbatim>\<open>volume_archive_libarchive.cc\<close>, with the state of the decoder (external) for the open
  entry: the content it decodes to, or \<open>None\<close> when the chunk pipeline can supply no
  data; the decoder's own error string; the current sequential decode offset; and the
  session's optional error message.
\<close>

record ArchiveSession =
  entry_content :: "8 word list option"
  lastError :: string
  cursor :: nat
  error_message :: "string option"

text \<open>
  Modelled from the spec: the decoder's \<^verbatim>\<open>readEntryData(maxBytes) -> bytes|error\<close>
  (missing, external): the next bytes of the entry, at most \<open>maxBytes\<close> and none at the
  end of the entry, moving the decoder forward; \<open>None\<close> is the error.
\<close>

definition readEntryData :: "ArchiveSession \<Rightarrow> nat \<Rightarrow> (8 word list \<times> ArchiveSession) option" where
  "readEntryData s maxBytes =
     (case entry_content s of
        None \<Rightarrow> None
      | Some content \<Rightarrow>
          let bytes = take maxBytes (drop (cursor s) content)
          in Some (bytes, s\<lparr>cursor := cursor s + length bytes\<rparr>))"

text \<open>
  Modelled from the spec: restarting the decode of the entry from its beginning (missing
  part of \<^verbatim>\<open>ReadData\<close>), for a request behind the cursor.
\<close>

definition restart :: "ArchiveSession \<Rightarrow> ArchiveSession" where
  "restart s = s\<lparr>cursor := 0\<rparr>"

text \<open>
  Modelled from the spec: the failure of a read (missing part of \<^verbatim>\<open>ReadData\<close>): the
  session's error message becomes the prefix followed by the decoder's error string.
\<close>

definition read_failure :: "volume_archive_constants \<Rightarrow> ArchiveSession \<Rightarrow> ArchiveSession" where
  "read_failure c s =
     s\<lparr>error_message := Some (kArchiveReadDataErrorPrefix c @ lastError s)\<rparr>"

text \<open>
  Modelled from the spec: advancing to the requested offset (missing part of
  \<^verbatim>\<open>ReadData\<close>): the bytes between the cursor and the offset are decoded in bounded calls
  and discarded. The flag is false when the decoder fails; the loop also ends when the
  entry does.
\<close>

function advance :: "nat \<Rightarrow> ArchiveSession \<Rightarrow> nat \<Rightarrow> bool \<times> ArchiveSession" where
  "advance max_chunk s offset =
     (if cursor s < offset then
        case readEntryData s (min (offset - cursor s) max_chunk) of
          None \<Rightarrow> (False, s)
        | Some (bytes, s') \<Rightarrow>
            if bytes = [] then (True, s') else advance max_chunk s' offset
      else (True, s))"
  by pat_completeness auto
termination
  by (relation "measure (\<lambda>(max_chunk, s, offset). offset - cursor s)")
     (auto simp: readEntryData_def Let_def split: option.splits)

declare advance.simps [simp del]

text \<open>
  Modelled from the spec: writing decoded bytes into the destination buffer at a
  position (missing part of \<^verbatim>\<open>ReadData\<close>); the other positions keep their bytes.
\<close>

definition write_at :: "nat \<Rightarrow> 8 word list \<Rightarrow> 8 word list \<Rightarrow> 8 word list" where
  "write_at pos bytes buffer = take pos buffer @ bytes @ drop (pos + length bytes) buffer"

text \<open>
  Modelled from the spec: reading the window (missing part of \<^verbatim>\<open>ReadData\<close>): repeated
  bounded decode calls, each written behind the last, until the length is served or the
  entry ends. The flag is false when the decoder fails.
\<close>

function read_window ::
  "nat \<Rightarrow> ArchiveSession \<Rightarrow> nat \<Rightarrow> nat \<Rightarrow> 8 word list \<Rightarrow> bool \<times> 8 word list \<times> ArchiveSession"
where
  "read_window max_chunk s left pos buffer =
     (case readEntryData s (min left max_chunk) of
        None \<Rightarrow> (False, buffer, s)
      | Some (bytes, s') \<Rightarrow>
          if 0 < left - length bytes \<and> bytes \<noteq> []
          then read_window max_chunk s' (left - length bytes) (pos + length bytes)
                 (write_at pos bytes buffer)
          else (True, write_at pos bytes buffer, s'))"
  by pat_completeness auto
termination
  by (relation "measure (\<lambda>(max_chunk, s, left, pos, buffer). left)") auto

declare read_window.simps [simp del]

text \<open>
  Modelled from the spec: \<^verbatim>\<open>readData(offset, length, outBuffer) -> bool\<close> of the missing
  \<^verbatim>\<open>volume_archive_libarchive.cc\<close>. A request behind the cursor restarts the entry; a
  request ahead of it advances; then the window is read. A decoder failure sets the
  error message and answers false.
\<close>

definition ReadData ::
  "volume_archive_constants \<Rightarrow> ArchiveSession \<Rightarrow> nat \<Rightarrow> nat \<Rightarrow> 8 word list
     \<Rightarrow> bool \<times> 8 word list \<times> ArchiveSession"
where
  "ReadData c s offset len buffer =
     (let s = (if offset < cursor s then restart s else s);
          (advanced, s) = advance (kMaximumDataChunkSize c) s offset
      in if \<not> advanced then (False, buffer, read_failure c s)
         else
           let (ok, buffer, s) = read_window (kMaximumDataChunkSize c) s len 0 buffer
           in if \<not> ok then (False, buffer, read_failure c s) else (True, buffer, s))"

text \<open>
  Consecutive calls against the same session, as the unit test makes them: each call
  starts from the session the call before it left, with a destination buffer of its own.
\<close>

fun ReadData_calls ::
  "volume_archive_constants \<Rightarrow> ArchiveSession \<Rightarrow> (nat \<times> nat \<times> 8 word list) list
     \<Rightarrow> (bool \<times> 8 word list) list"
where
  "ReadData_calls c s [] = []"
| "ReadData_calls c s ((offset, len, buffer) # requests) =
     (let (ok, buffer, s) = ReadData c s offset len buffer
      in (ok, buffer) # ReadData_calls c s requests)"

text \<open>
  A session for running the read on concrete requests, as the fixture of the unit test
  sets one up: positioned at the start of the entry, with no error yet. Decode calls are
  bounded by two bytes, so that the requests below take several.
\<close>

definition test_constants :: volume_archive_constants where
  "test_constants =
     \<lparr>kArchiveReadDataErrorPrefix = ''read error: '', kMaximumDataChunkSize = 2\<rparr>"

definition test_session :: "8 word list option \<Rightarrow> ArchiveSession" where
  "test_session archive_data =
     \<lparr>entry_content = archive_data, lastError = ''no data'', cursor = 0,
      error_message = None\<rparr>"

section \<open>Properties of the metadata tree\<close>

text \<open>
  C4. Inserting the file \<^verbatim>\<open>/a/b.txt\<close> and then the directory \<^verbatim>\<open>/a\<close> leaves exactly one
  node named \<^verbatim>\<open>a\<close> in the tree. It is a directory, it carries the size and the
  modification time of the later directory entry, and its entries are the ones the
  placeholder had collected: the single file \<^verbatim>\<open>b.txt\<close>. (Path splitting is textual, so
  the leading delimiter puts the node below a directory with the empty name; see
  \<open>ConstructMetadata_leading_delimiter\<close>.)
\<close>

theorem late_directory_entry_merges_placeholder:
  "filter (named ''a'')
     (nodes (ConstructMetadata ''/a'' sz2 True mtime2
               (ConstructMetadata ''/a/b.txt'' sz1 False mtime1 root_metadata)))
   = [VDictionary
        [(''isDirectory'', VBool True),
         (''name'', VString ''a''),
         (''size'', VString (to_string sz2)),
         (''modificationTime'', VString (to_string mtime2)),
         (''entries'', VDictionary [(''b.txt'', CreateEntry ''b.txt'' False sz1 mtime1)])]]"
  by (simp add: metadata_eval)

lemma ConstructMetadata_leading_delimiter:
  "map fst (entries_of (ConstructMetadata ''/a'' sz2 True mtime2
               (ConstructMetadata ''/a/b.txt'' sz1 False mtime1 root_metadata))) = [[]]"
  by (simp add: metadata_eval)

lemma late_directory_entry_without_leading_delimiter:
  "entries_of (ConstructMetadata ''a'' sz2 True mtime2
               (ConstructMetadata ''a/b.txt'' sz1 False mtime1 root_metadata))
   = [(''a'', VDictionary
        [(''isDirectory'', VBool True),
         (''name'', VString ''a''),
         (''size'', VString (to_string sz2)),
         (''modificationTime'', VString (to_string mtime2)),
         (''entries'', VDictionary [(''b.txt'', CreateEntry ''b.txt'' False sz1 mtime1)])])]"
  by (simp add: metadata_eval)

text \<open>
  C5. The claim is that after any insertions every node has an \<^verbatim>\<open>entries\<close> dictionary
  exactly when it is a directory. \<^verbatim>\<open>CreateEntry\<close> keeps that rule, but the merge with an
  existing node copies the old \<^verbatim>\<open>entries\<close> whatever the new \<^verbatim>\<open>is_directory\<close> is. After the
  file \<^verbatim>\<open>a/b.txt\<close> and then a regular file \<^verbatim>\<open>a\<close>, the node \<^verbatim>\<open>a\<close> is the one node that
  breaks the rule: it is not a directory and has entries. The node it replaces is a
  directory, so the \<^verbatim>\<open>PP_DCHECK\<close> of the merge holds.
\<close>

theorem merged_file_node_keeps_entries:
  "filter (\<lambda>d. \<not> entries_iff_directory d)
     (nodes (ConstructMetadata ''a'' 7 False 9
               (ConstructMetadata ''a/b.txt'' 5 False 3 root_metadata)))
   = [VDictionary
        [(''isDirectory'', VBool False),
         (''name'', VString ''a''),
         (''size'', VString (to_string 7)),
         (''modificationTime'', VString (to_string 9)),
         (''entries'', VDictionary [(''b.txt'', CreateEntry ''b.txt'' False 5 3)])]]"
  by (simp add: metadata_eval)

section \<open>Properties of the dispatch\<close>

lemma ReadFile_loop_done:
  "\<not> 0 <s len \<Longrightarrow> ReadFile_loop ops fsid request_id a offset len = (a, [])"
  by (simp add: ReadFile_loop.simps)

text \<open>
  C8. A chunk arrival or a chunk error for a request id that is not in the registry
  returns the volume as it was: no session changed, nothing sent, no error raised.
\<close>

theorem late_chunk_notification_is_noop:
  "GetVolumeArchive v request_id = None \<Longrightarrow>
     ReadChunkDone ops v request_id array_buffer read_offset = v
     \<and> ReadChunkError ops v request_id = v"
  by (simp add: ReadChunkDone_def ReadChunkError_def)

theorem late_chunk_notification_is_noop_witness:
  "GetVolumeArchive (fake_volume 3) ''2'' = None
   \<and> ReadChunkDone FakeVolumeArchive (fake_volume 3) ''2'' \<lparr>ByteLength = 0, Map = ()\<rparr> 0
       = fake_volume 3
   \<and> ReadChunkError FakeVolumeArchive (fake_volume 3) ''2'' = fake_volume 3"
proof -
  have absent: "GetVolumeArchive (fake_volume 3) ''2'' = None"
    by (simp add: GetVolumeArchive_def fake_volume_def)
  from late_chunk_notification_is_noop [OF absent] absent show ?thesis
    by blast
qed

text \<open>
  C9. \<^verbatim>\<open>CleanupVolumeArchive\<close> erases the archive's request id from the registry
  whether \<^verbatim>\<open>Cleanup\<close> succeeds or not. It sends an error, and answers false, exactly when
  \<^verbatim>\<open>Cleanup\<close> failed and \<^verbatim>\<open>post_cleanup_error\<close> is set; otherwise it sends nothing.
\<close>

theorem CleanupVolumeArchive_always_erases:
  "worker_reads_in_progress (snd (CleanupVolumeArchive ops v a post_cleanup_error))
     = (worker_reads_in_progress v)(va_request_id ops a := None)
   \<and> GetVolumeArchive (snd (CleanupVolumeArchive ops v a post_cleanup_error))
       (va_request_id ops a) = None
   \<and> calls (snd (CleanupVolumeArchive ops v a post_cleanup_error))
     = calls v @
       (if \<not> fst (va_Cleanup ops a) \<and> post_cleanup_error
        then [SendFileSystemError (file_system_id v)
                (va_request_id ops (snd (va_Cleanup ops a)))
                (va_error_message ops (snd (va_Cleanup ops a)))]
        else [])
   \<and> fst (CleanupVolumeArchive ops v a post_cleanup_error)
     = (\<not> (\<not> fst (va_Cleanup ops a) \<and> post_cleanup_error))"
  by (simp add: CleanupVolumeArchive_def GetVolumeArchive_def message_sender_def Let_def
        split: prod.split)

lemma CleanupVolumeArchive_fake:
  "CleanupVolumeArchive FakeVolumeArchive (fake_volume 3) 3 True
     = (False, \<lparr>file_system_id = ''fs'', worker_reads_in_progress = Map.empty,
                calls = [SendFileSystemError ''fs'' ''1'' ''fake error'']\<rparr>)
   \<and> CleanupVolumeArchive FakeVolumeArchive (fake_volume 3) 3 False
     = (True, \<lparr>file_system_id = ''fs'', worker_reads_in_progress = Map.empty,
               calls = []\<rparr>)"
  by (simp add: CleanupVolumeArchive_def FakeVolumeArchive_def fake_volume_def
        message_sender_def)

text \<open>
  C10. A read request whose length is zero or negative sends nothing and calls nothing:
  the volume, with its registry and the archive in it, is returned as it was.
\<close>

theorem ReadFile_nonpositive_length_is_noop:
  "\<not> 0 <s kLength dictionary \<Longrightarrow> ReadFileCallback ops v request_id dictionary = Some v"
  by (auto simp: ReadFileCallback_def GetVolumeArchive_def ReadFile_loop_done Let_def
        map_upd_triv split: option.split)

theorem ReadFile_nonpositive_length_is_noop_witness:
  "\<not> 0 <s (- 5 :: 32 word)
   \<and> ReadFileCallback FakeVolumeArchive (fake_volume 3) ''2''
       \<lparr>kOpenRequestId = ''1'', kOffset = 0, kLength = - 5\<rparr> = Some (fake_volume 3)"
proof -
  have neg: "\<not> 0 <s kLength \<lparr>kOpenRequestId = ''1'', kOffset = 0, kLength = - 5 :: 32 word\<rparr>"
    by (simp add: word_sless_alt)
  from ReadFile_nonpositive_length_is_noop [OF neg] neg show ?thesis
    by simp
qed

subsection \<open>The loop, one step at a time\<close>

lemma ReadFile_loop_failed_step:
  assumes "0 <s len" and "va_ReadData ops a offset (buffer_size_of len) = (False, data, a1)"
  shows "ReadFile_loop ops fsid request_id a offset len =
           (a1, [ReadData_call offset (buffer_size_of len) False,
                 SendFileSystemError fsid request_id (va_error_message ops a1)])"
  using assms
  by (cases "kReadBufferSizeMax <s len"; subst ReadFile_loop.simps; simp add: buffer_size_of_def)

lemma ReadFile_loop_good_step:
  assumes "0 <s len" and "va_ReadData ops a offset (buffer_size_of len) = (True, data, a1)"
    and "ReadFile_loop ops fsid request_id a1 (offset + scast (buffer_size_of len))
           (len - buffer_size_of len) = (a2, rest)"
  shows "ReadFile_loop ops fsid request_id a offset len =
           (a2, ReadData_call offset (buffer_size_of len) True
                # SendReadFileDone fsid request_id
                    \<lparr>ByteLength = buffer_size_of len, Map = data\<rparr> (kReadBufferSizeMax <s len)
                # rest)"
  using assms
  by (cases "kReadBufferSizeMax <s len"; subst ReadFile_loop.simps; simp add: buffer_size_of_def)

lemma ReadFile_loop_cases [consumes 1, case_names finished failed good]:
  assumes run: "ReadFile_loop ops fsid request_id a offset len = (a', cs)"
    and finished: "\<lbrakk>\<not> 0 <s len; a' = a; cs = []\<rbrakk> \<Longrightarrow> R"
    and failed: "\<And>data.
      \<lbrakk>0 <s len; va_ReadData ops a offset (buffer_size_of len) = (False, data, a');
       cs = [ReadData_call offset (buffer_size_of len) False,
             SendFileSystemError fsid request_id (va_error_message ops a')]\<rbrakk> \<Longrightarrow> R"
    and good: "\<And>data a1 rest.
      \<lbrakk>0 <s len; va_ReadData ops a offset (buffer_size_of len) = (True, data, a1);
       ReadFile_loop ops fsid request_id a1 (offset + scast (buffer_size_of len))
         (len - buffer_size_of len) = (a', rest);
       cs = ReadData_call offset (buffer_size_of len) True
            # SendReadFileDone fsid request_id
                \<lparr>ByteLength = buffer_size_of len, Map = data\<rparr> (kReadBufferSizeMax <s len)
            # rest\<rbrakk> \<Longrightarrow> R"
  shows R
proof (cases "0 <s len")
  case False
  with run finished show R by (simp add: ReadFile_loop_done)
next
  case pos: True
  obtain ok data a1 where rd: "va_ReadData ops a offset (buffer_size_of len) = (ok, data, a1)"
    by (cases "va_ReadData ops a offset (buffer_size_of len)") auto
  show R
  proof (cases ok)
    case False
    with pos rd run failed show R by (auto simp: ReadFile_loop_failed_step)
  next
    case True
    obtain a2 rest where
      rec: "ReadFile_loop ops fsid request_id a1 (offset + scast (buffer_size_of len))
              (len - buffer_size_of len) = (a2, rest)"
      by (cases "ReadFile_loop ops fsid request_id a1 (offset + scast (buffer_size_of len))
              (len - buffer_size_of len)") auto
    from pos rd True rec run good show R by (auto simp: ReadFile_loop_good_step)
  qed
qed

lemma sint_step:
  assumes "0 <s len"
  shows "sint (buffer_size_of len) = min (sint len) 524288"
    and "sint (len - buffer_size_of len) = sint len - min (sint len) 524288"
    and "(kReadBufferSizeMax <s len) = (524288 < sint len)"
  using assms
  by (auto simp: buffer_size_of_def sint_minus_kReadBufferSizeMax word_sless_alt
        sint_kReadBufferSizeMax)

text \<open>Induction along the loop: on the number of bytes still to read.\<close>

lemma ReadFile_loop_failure:
  assumes "ReadFile_loop ops fsid request_id a offset len = (a', cs)"
    and "list_ex read_failed cs"
  shows "\<exists>pre off sz.
           cs = pre @ [ReadData_call off sz False,
                       SendFileSystemError fsid request_id (va_error_message ops a')]
           \<and> \<not> list_ex is_SendFileSystemError pre \<and> \<not> list_ex read_failed pre"
  using assms
proof (induction "nat (sint len)" arbitrary: a offset len cs rule: less_induct)
  case less
  from less.prems(1) show ?case
  proof (cases rule: ReadFile_loop_cases)
    case finished
    with less.prems(2) show ?thesis by simp
  next
    case (failed data)
    then show ?thesis by (intro exI [of _ "[]"]) simp
  next
    case (good data a1 rest)
    from good(1) have "nat (sint (len - buffer_size_of len)) < nat (sint len)"
      by (simp add: sint_step word_sless_alt)
    moreover from less.prems(2) good(4) have "list_ex read_failed rest" by simp
    ultimately obtain pre off sz where
      rest: "rest = pre @ [ReadData_call off sz False,
                           SendFileSystemError fsid request_id (va_error_message ops a')]"
      and pre: "\<not> list_ex is_SendFileSystemError pre" "\<not> list_ex read_failed pre"
      using less.hyps good(3) by blast
    let ?pre = "ReadData_call offset (buffer_size_of len) True
                # SendReadFileDone fsid request_id
                    \<lparr>ByteLength = buffer_size_of len, Map = data\<rparr> (kReadBufferSizeMax <s len)
                # pre"
    from good(4) rest pre
    have "cs = ?pre @ [ReadData_call off sz False,
                       SendFileSystemError fsid request_id (va_error_message ops a')]
          \<and> \<not> list_ex is_SendFileSystemError ?pre \<and> \<not> list_ex read_failed ?pre"
      by simp
    then show ?thesis by blast
  qed
qed

lemma windows_nonpos [simp]: "n \<le> 0 \<Longrightarrow> windows offset n = []"
  by (simp add: windows.simps)

lemma windows_pos:
  "0 < n \<Longrightarrow> windows offset n =
     (offset, min n 524288, 524288 < n)
     # windows (offset + word_of_int (min n 524288)) (n - min n 524288)"
  by (subst windows.simps) simp

lemma windows_empty_iff: "windows offset n = [] \<longleftrightarrow> n \<le> 0"
  by (cases "0 < n") (simp_all add: windows_pos)

abbreviation window_sizes :: "64 word \<Rightarrow> int \<Rightarrow> int list" where
  "window_sizes offset n \<equiv> map (\<lambda>w. fst (snd w)) (windows offset n)"

lemma sum_window_sizes: "sum_list (window_sizes offset n) = max 0 n"
proof (induction offset n rule: windows.induct)
  case (1 offset n)
  show ?case
  proof (cases "0 < n")
    case True
    with 1 show ?thesis by (simp add: windows_pos)
  next
    case False
    then show ?thesis by simp
  qed
qed

lemma windows_nth:
  "i < length (windows offset n) \<Longrightarrow>
     windows offset n ! i =
       (offset + word_of_int (sum_list (take i (window_sizes offset n))),
        min (n - sum_list (take i (window_sizes offset n))) 524288,
        524288 < n - sum_list (take i (window_sizes offset n)))"
proof (induction i arbitrary: offset n)
  case 0
  then have "0 < n" by (cases "0 < n") simp_all
  then show ?case by (simp add: windows_pos)
next
  case (Suc i)
  then have pos: "0 < n" by (cases "0 < n") simp_all
  with Suc.prems have
    "i < length (windows (offset + word_of_int (min n 524288)) (n - min n 524288))"
    by (simp add: windows_pos)
  from Suc.IH [OF this] pos show ?case
    by (simp add: windows_pos algebra_simps)
qed

lemma windows_has_more:
  "i < length (windows offset n) \<Longrightarrow>
     (524288 < n - sum_list (take i (window_sizes offset n)))
       = (Suc i < length (windows offset n))"
proof (induction i arbitrary: offset n)
  case 0
  then have pos: "0 < n" by (cases "0 < n") simp_all
  have "(Suc 0 < length (windows offset n))
          = (windows (offset + word_of_int (min n 524288)) (n - min n 524288) \<noteq> [])"
    using pos by (simp add: windows_pos)
  also have "\<dots> = (524288 < n)"
    using pos by (auto simp: windows_empty_iff)
  finally show ?case by simp
next
  case (Suc i)
  then have pos: "0 < n" by (cases "0 < n") simp_all
  with Suc.prems have
    "i < length (windows (offset + word_of_int (min n 524288)) (n - min n 524288))"
    by (simp add: windows_pos)
  from Suc.IH [OF this] pos show ?case
    by (simp add: windows_pos algebra_simps)
qed

lemma ReadFile_loop_success:
  assumes "ReadFile_loop ops fsid request_id a offset len = (a', cs)"
    and "\<not> list_ex read_failed cs"
  shows "read_offsets cs = map fst (windows offset (sint len))
         \<and> chunk_sizes cs = window_sizes offset (sint len)
         \<and> chunk_flags cs = map (\<lambda>w. snd (snd w)) (windows offset (sint len))"
  using assms
proof (induction "nat (sint len)" arbitrary: a offset len cs rule: less_induct)
  case less
  from less.prems(1) show ?case
  proof (cases rule: ReadFile_loop_cases)
    case finished
    then show ?thesis by (simp add: word_sless_alt)
  next
    case (failed data)
    with less.prems(2) show ?thesis by simp
  next
    case (good data a1 rest)
    from good(1) have pos: "0 < sint len" by (simp add: word_sless_alt)
    from good(1) have "nat (sint (len - buffer_size_of len)) < nat (sint len)"
      by (simp add: sint_step word_sless_alt)
    moreover from less.prems(2) good(4) have "\<not> list_ex read_failed rest" by simp
    ultimately have
      "read_offsets rest
         = map fst (windows (offset + scast (buffer_size_of len)) (sint (len - buffer_size_of len)))
       \<and> chunk_sizes rest
         = window_sizes (offset + scast (buffer_size_of len)) (sint (len - buffer_size_of len))
       \<and> chunk_flags rest
         = map (\<lambda>w. snd (snd w))
             (windows (offset + scast (buffer_size_of len)) (sint (len - buffer_size_of len)))"
      using less.hyps good(3) by blast
    moreover have "(scast (buffer_size_of len) :: 64 word) = word_of_int (min (sint len) 524288)"
      using sint_step(1) [OF good(1)] by (simp add: scast_eq)
    ultimately show ?thesis
      using good(4) pos sint_step [OF good(1)] by (simp add: windows_pos)
  qed
qed

lemma ReadFileCallback_run:
  assumes "ReadFileCallback ops v request_id dictionary = Some v'"
    and "0 <s kLength dictionary \<or> emitted v v' \<noteq> []"
  shows "\<exists>a a'.
           GetVolumeArchive v (kOpenRequestId dictionary) = Some a
           \<and> ReadFile_loop ops (file_system_id v) request_id a (kOffset dictionary)
                 (kLength dictionary) = (a', emitted v v')
           \<and> v' = v\<lparr>worker_reads_in_progress :=
                       (worker_reads_in_progress v)(kOpenRequestId dictionary \<mapsto> a'),
                     calls := calls v @ emitted v v'\<rparr>"
proof (cases "GetVolumeArchive v (kOpenRequestId dictionary)")
  case None
  with assms show ?thesis
    by (auto simp: ReadFileCallback_def emitted_def split: if_splits)
next
  case (Some a)
  obtain a' cs where
    run: "ReadFile_loop ops (file_system_id v) request_id a (kOffset dictionary)
            (kLength dictionary) = (a', cs)"
    by (cases "ReadFile_loop ops (file_system_id v) request_id a (kOffset dictionary)
            (kLength dictionary)") auto
  with Some assms(1) have
    v': "v' = v\<lparr>worker_reads_in_progress :=
                   (worker_reads_in_progress v)(kOpenRequestId dictionary \<mapsto> a'),
                 calls := calls v @ cs\<rparr>"
    by (simp add: ReadFileCallback_def)
  then have "emitted v v' = cs" by (simp add: emitted_def)
  with Some run v' show ?thesis by simp
qed

lemma ReadFileCallback_returns:
  assumes "GetVolumeArchive v (kOpenRequestId dictionary) = Some a"
  shows "\<exists>v'. ReadFileCallback ops v request_id dictionary = Some v'"
  using assms by (simp add: ReadFileCallback_def split: prod.split)

lemma ReadFile_chunks:
  assumes "0 <s kLength dictionary"
    and "ReadFileCallback ops v request_id dictionary = Some v'"
    and "\<not> list_ex read_failed (emitted v v')"
    and "sizes = chunk_sizes (emitted v v')"
    and "flags = chunk_flags (emitted v v')"
    and "offsets = read_offsets (emitted v v')"
  shows "length offsets = length sizes \<and> length flags = length sizes
         \<and> sum_list sizes = sint (kLength dictionary)
         \<and> (\<forall>i < length sizes.
               sizes ! i = min (sint (kLength dictionary) - sum_list (take i sizes))
                             (sint kReadBufferSizeMax)
               \<and> offsets ! i = kOffset dictionary + word_of_int (sum_list (take i sizes))
               \<and> flags ! i
                   = (sint kReadBufferSizeMax < sint (kLength dictionary) - sum_list (take i sizes))
               \<and> flags ! i = (Suc i < length sizes))"
proof -
  let ?ws = "windows (kOffset dictionary) (sint (kLength dictionary))"
  from assms(1) have pos: "0 < sint (kLength dictionary)" by (simp add: word_sless_alt)
  from ReadFileCallback_run [OF assms(2)] assms(1) obtain a a' where
    "ReadFile_loop ops (file_system_id v) request_id a (kOffset dictionary)
       (kLength dictionary) = (a', emitted v v')"
    by blast
  from ReadFile_loop_success [OF this assms(3)] assms(4-6)
  have eqs: "offsets = map fst ?ws" "sizes = map (\<lambda>w. fst (snd w)) ?ws"
    "flags = map (\<lambda>w. snd (snd w)) ?ws"
    by simp_all
  have lens: "length offsets = length sizes" "length flags = length sizes"
    by (simp_all add: eqs)
  have total: "sum_list sizes = sint (kLength dictionary)"
    using pos by (simp add: eqs sum_window_sizes)
  have each: "sizes ! i = min (sint (kLength dictionary) - sum_list (take i sizes))
                               (sint kReadBufferSizeMax)
      \<and> offsets ! i = kOffset dictionary + word_of_int (sum_list (take i sizes))
      \<and> flags ! i
          = (sint kReadBufferSizeMax < sint (kLength dictionary) - sum_list (take i sizes))
      \<and> flags ! i = (Suc i < length sizes)"
    if "i < length sizes" for i
  proof -
    from that have i: "i < length ?ws" by (simp add: eqs)
    from windows_nth [OF i] windows_has_more [OF i] i show ?thesis
      by (simp add: eqs sint_kReadBufferSizeMax)
  qed
  from lens total each show ?thesis by blast
qed

lemma ReadFile_failure:
  assumes "ReadFileCallback ops v request_id dictionary = Some v'"
    and "list_ex read_failed (emitted v v')"
  shows "\<exists>pre off sz a'.
           calls v' = calls v @ pre
             @ [ReadData_call off sz False,
                SendFileSystemError (file_system_id v) request_id (va_error_message ops a')]
           \<and> \<not> list_ex is_SendFileSystemError pre \<and> \<not> list_ex read_failed pre
           \<and> GetVolumeArchive v' (kOpenRequestId dictionary) = Some a'
           \<and> worker_reads_in_progress v'
               = (worker_reads_in_progress v)(kOpenRequestId dictionary \<mapsto> a')
           \<and> dom (worker_reads_in_progress v') = dom (worker_reads_in_progress v)"
proof -
  from assms(2) have "emitted v v' \<noteq> []" by auto
  with ReadFileCallback_run [OF assms(1)] obtain a a' where
    present: "GetVolumeArchive v (kOpenRequestId dictionary) = Some a"
    and run: "ReadFile_loop ops (file_system_id v) request_id a (kOffset dictionary)
                (kLength dictionary) = (a', emitted v v')"
    and v': "v' = v\<lparr>worker_reads_in_progress :=
                      (worker_reads_in_progress v)(kOpenRequestId dictionary \<mapsto> a'),
                    calls := calls v @ emitted v v'\<rparr>"
    by blast
  from ReadFile_loop_failure [OF run assms(2)] obtain pre off sz where
    cs: "emitted v v' = pre @ [ReadData_call off sz False,
           SendFileSystemError (file_system_id v) request_id (va_error_message ops a')]"
    and pre: "\<not> list_ex is_SendFileSystemError pre" "\<not> list_ex read_failed pre"
    by blast
  have "calls v' = calls v @ emitted v v'"
    by (subst v') simp
  with cs have "calls v' = calls v @ pre
             @ [ReadData_call off sz False,
                SendFileSystemError (file_system_id v) request_id (va_error_message ops a')]"
    by simp
  moreover have "worker_reads_in_progress v'
      = (worker_reads_in_progress v)(kOpenRequestId dictionary \<mapsto> a')"
    by (subst v') simp
  moreover from this have "GetVolumeArchive v' (kOpenRequestId dictionary) = Some a'"
    by (simp add: GetVolumeArchive_def)
  moreover from present have "dom ((worker_reads_in_progress v)(kOpenRequestId dictionary \<mapsto> a'))
      = dom (worker_reads_in_progress v)"
    by (auto simp: GetVolumeArchive_def)
  ultimately show ?thesis using pre by auto
qed

lemma fake_read_two_chunks:
  "ReadFileCallback FakeVolumeArchive (fake_volume 4) ''2'' fake_request
     = Some (fake_volume_after 2 True)"
  by (simp add: ReadFileCallback_def GetVolumeArchive_def fake_volume_def fake_request_def
        fake_volume_after_def FakeVolumeArchive_def ReadFile_loop.simps
        kReadBufferSizeMax_def word_sless_alt)

lemma fake_read_second_fails:
  "ReadFileCallback FakeVolumeArchive (fake_volume 1) ''2'' fake_request
     = Some (fake_volume_after 0 False)"
  by (simp add: ReadFileCallback_def GetVolumeArchive_def fake_volume_def fake_request_def
        fake_volume_after_def FakeVolumeArchive_def ReadFile_loop.simps
        kReadBufferSizeMax_def word_sless_alt)

lemma fake_read_first_fails:
  "ReadFileCallback FakeVolumeArchive (fake_volume 0) ''2''
     \<lparr>kOpenRequestId = ''1'', kOffset = 0, kLength = 1\<rparr>
   = Some \<lparr>file_system_id = ''fs'', worker_reads_in_progress = [''1'' \<mapsto> 0],
           calls = [ReadData_call 0 1 False,
                    SendFileSystemError ''fs'' ''2'' ''fake error'']\<rparr>"
  by (simp add: ReadFileCallback_def GetVolumeArchive_def fake_volume_def
        FakeVolumeArchive_def ReadFile_loop.simps kReadBufferSizeMax_def word_sless_alt)

text \<open>
  C6. As stated the claim fails when a call of \<^verbatim>\<open>ReadData\<close> fails: the loop returns at
  the failure and the chunks sent so far do not add up to the length. It holds for a
  request of positive length on an open file in which no call of \<^verbatim>\<open>ReadData\<close> fails.
  The callback returns; the chunk sizes add up to the length; the i-th chunk has the size
  \<open>min remaining 512 KB\<close> and is read at the requested offset plus the sizes before it;
  its has-more flag says that the remaining length before it exceeds 512 KB, and it is
  false on the last chunk only.
\<close>

theorem ReadFile_chunks_when_no_read_fails:
  assumes "0 <s kLength dictionary"
    and "GetVolumeArchive v (kOpenRequestId dictionary) = Some a"
  shows "\<exists>v' sizes flags offsets.
           ReadFileCallback ops v request_id dictionary = Some v'
           \<and> sizes = chunk_sizes (emitted v v')
           \<and> flags = chunk_flags (emitted v v')
           \<and> offsets = read_offsets (emitted v v')
           \<and> (\<not> list_ex read_failed (emitted v v') \<longrightarrow>
                length offsets = length sizes \<and> length flags = length sizes
                \<and> sum_list sizes = sint (kLength dictionary)
                \<and> (\<forall>i < length sizes.
                      sizes ! i = min (sint (kLength dictionary) - sum_list (take i sizes))
                                    (sint kReadBufferSizeMax)
                      \<and> offsets ! i
                          = kOffset dictionary + word_of_int (sum_list (take i sizes))
                      \<and> flags ! i
                          = (sint kReadBufferSizeMax
                               < sint (kLength dictionary) - sum_list (take i sizes))
                      \<and> flags ! i = (Suc i < length sizes)))"
proof -
  from ReadFileCallback_returns [OF assms(2)] obtain v' where
    run: "ReadFileCallback ops v request_id dictionary = Some v'"
    by blast
  from ReadFile_chunks [OF assms(1) run _ refl refl refl] run show ?thesis
    by blast
qed

theorem ReadFile_chunks_when_no_read_fails_witness:
  "0 <s kLength fake_request
   \<and> GetVolumeArchive (fake_volume 4) (kOpenRequestId fake_request) = Some 4
   \<and> ReadFileCallback FakeVolumeArchive (fake_volume 4) ''2'' fake_request
       = Some (fake_volume_after 2 True)
   \<and> \<not> list_ex read_failed (emitted (fake_volume 4) (fake_volume_after 2 True))
   \<and> chunk_sizes (emitted (fake_volume 4) (fake_volume_after 2 True)) = [524288, 75712]
   \<and> chunk_flags (emitted (fake_volume 4) (fake_volume_after 2 True)) = [True, False]
   \<and> read_offsets (emitted (fake_volume 4) (fake_volume_after 2 True)) = [100, 524388]
   \<and> sum_list (chunk_sizes (emitted (fake_volume 4) (fake_volume_after 2 True)))
       = sint (kLength fake_request)"
proof -
  let ?cs = "emitted (fake_volume 4) (fake_volume_after 2 True)"
  have pos: "0 <s kLength fake_request"
    by (simp add: fake_request_def word_sless_alt)
  have present: "GetVolumeArchive (fake_volume 4) (kOpenRequestId fake_request) = Some 4"
    by (simp add: GetVolumeArchive_def fake_volume_def fake_request_def)
  have run: "ReadFileCallback FakeVolumeArchive (fake_volume 4) ''2'' fake_request
               = Some (fake_volume_after 2 True)"
    by (rule fake_read_two_chunks)
  have good: "\<not> list_ex read_failed ?cs"
    and sizes: "chunk_sizes ?cs = [524288, 75712]"
    and flags: "chunk_flags ?cs = [True, False]"
    and offsets: "read_offsets ?cs = [100, 524388]"
    by (simp_all add: emitted_def fake_volume_def fake_volume_after_def)
  from ReadFile_chunks_when_no_read_fails [OF pos present, of FakeVolumeArchive "''2''"]
  obtain v' where v': "ReadFileCallback FakeVolumeArchive (fake_volume 4) ''2'' fake_request = Some v'"
    and total: "\<not> list_ex read_failed (emitted (fake_volume 4) v') \<longrightarrow>
                  sum_list (chunk_sizes (emitted (fake_volume 4) v')) = sint (kLength fake_request)"
    by blast
  from v' run have "v' = fake_volume_after 2 True" by simp
  with total good have "sum_list (chunk_sizes ?cs) = sint (kLength fake_request)"
    by blast
  with pos present run good sizes flags offsets show ?thesis
    by blast
qed

theorem ReadFile_chunks_counterexample:
  "0 <s (1 :: 32 word)
   \<and> ReadFileCallback FakeVolumeArchive (fake_volume 0) ''2''
       \<lparr>kOpenRequestId = ''1'', kOffset = 0, kLength = 1\<rparr>
     = Some \<lparr>file_system_id = ''fs'', worker_reads_in_progress = [''1'' \<mapsto> 0],
             calls = [ReadData_call 0 1 False,
                      SendFileSystemError ''fs'' ''2'' ''fake error'']\<rparr>
   \<and> sum_list (chunk_sizes [ReadData_call 0 1 False,
                             SendFileSystemError ''fs'' ''2'' ''fake error'' :: unit call])
     \<noteq> sint (1 :: 32 word)"
  by (simp add: fake_read_first_fails word_sless_alt)

text \<open>
  C7. A read request on an open file returns, and when a call of \<^verbatim>\<open>ReadData\<close> failed
  during it, what the request added to the calls ends with that failed call and one
  \<^verbatim>\<open>SendFileSystemError\<close> carrying the read request's id and the archive's error
  message; nothing is sent after it, and no error or failed read comes before it. The
  archive stays in the registry under the open request's id, and no other entry of the
  registry changes.
\<close>

theorem ReadFile_failure_reports_once_and_keeps_session:
  assumes "GetVolumeArchive v (kOpenRequestId dictionary) = Some a"
  shows "\<exists>v'. ReadFileCallback ops v request_id dictionary = Some v'
           \<and> (list_ex read_failed (emitted v v') \<longrightarrow>
                (\<exists>pre off sz a'.
                   calls v' = calls v @ pre
                     @ [ReadData_call off sz False,
                        SendFileSystemError (file_system_id v) request_id
                          (va_error_message ops a')]
                   \<and> \<not> list_ex is_SendFileSystemError pre \<and> \<not> list_ex read_failed pre
                   \<and> GetVolumeArchive v' (kOpenRequestId dictionary) = Some a'
                   \<and> worker_reads_in_progress v'
                       = (worker_reads_in_progress v)(kOpenRequestId dictionary \<mapsto> a')
                   \<and> dom (worker_reads_in_progress v') = dom (worker_reads_in_progress v)))"
proof -
  from ReadFileCallback_returns [OF assms] obtain v' where
    run: "ReadFileCallback ops v request_id dictionary = Some v'"
    by blast
  from ReadFile_failure [OF run] run show ?thesis
    by blast
qed

theorem ReadFile_failure_reports_once_and_keeps_session_witness:
  "GetVolumeArchive (fake_volume 1) (kOpenRequestId fake_request) = Some 1
   \<and> ReadFileCallback FakeVolumeArchive (fake_volume 1) ''2'' fake_request
       = Some (fake_volume_after 0 False)
   \<and> list_ex read_failed (emitted (fake_volume 1) (fake_volume_after 0 False))
   \<and> (\<exists>pre off sz a'.
         calls (fake_volume_after 0 False) = calls (fake_volume 1) @ pre
           @ [ReadData_call off sz False,
              SendFileSystemError (file_system_id (fake_volume 1)) ''2''
                (va_error_message FakeVolumeArchive a')]
         \<and> \<not> list_ex is_SendFileSystemError pre \<and> \<not> list_ex read_failed pre
         \<and> GetVolumeArchive (fake_volume_after 0 False) (kOpenRequestId fake_request) = Some a'
         \<and> worker_reads_in_progress (fake_volume_after 0 False)
             = (worker_reads_in_progress (fake_volume 1))(kOpenRequestId fake_request \<mapsto> a')
         \<and> dom (worker_reads_in_progress (fake_volume_after 0 False))
             = dom (worker_reads_in_progress (fake_volume 1)))"
proof -
  have present: "GetVolumeArchive (fake_volume 1) (kOpenRequestId fake_request) = Some 1"
    by (simp add: GetVolumeArchive_def fake_volume_def fake_request_def)
  have run: "ReadFileCallback FakeVolumeArchive (fake_volume 1) ''2'' fake_request
               = Some (fake_volume_after 0 False)"
    by (rule fake_read_second_fails)
  have failed: "list_ex read_failed (emitted (fake_volume 1) (fake_volume_after 0 False))"
    by (simp add: emitted_def fake_volume_def fake_volume_after_def)
  from ReadFile_failure_reports_once_and_keeps_session
         [OF present, of FakeVolumeArchive "''2''"] run failed
  have "\<exists>pre off sz a'.
         calls (fake_volume_after 0 False) = calls (fake_volume 1) @ pre
           @ [ReadData_call off sz False,
              SendFileSystemError (file_system_id (fake_volume 1)) ''2''
                (va_error_message FakeVolumeArchive a')]
         \<and> \<not> list_ex is_SendFileSystemError pre \<and> \<not> list_ex read_failed pre
         \<and> GetVolumeArchive (fake_volume_after 0 False) (kOpenRequestId fake_request) = Some a'
         \<and> worker_reads_in_progress (fake_volume_after 0 False)
             = (worker_reads_in_progress (fake_volume 1))(kOpenRequestId fake_request \<mapsto> a')
         \<and> dom (worker_reads_in_progress (fake_volume_after 0 False))
             = dom (worker_reads_in_progress (fake_volume 1))"
    by auto
  with present run failed show ?thesis
    by blast
qed

section \<open>Properties of the windowed read\<close>

lemma advance_reaches:
  assumes "entry_content s = Some content" and "0 < max_chunk"
    and "cursor s \<le> offset" and "offset \<le> length content"
  shows "advance max_chunk s offset = (True, s\<lparr>cursor := offset\<rparr>)"
  using assms
proof (induction "offset - cursor s" arbitrary: s rule: less_induct)
  case less
  show ?case
  proof (cases "cursor s < offset")
    case False
    with less.prems show ?thesis by (simp add: advance.simps)
  next
    case True
    let ?n = "min (offset - cursor s) max_chunk"
    let ?s' = "s\<lparr>cursor := cursor s + ?n\<rparr>"
    from True less.prems have n: "0 < ?n" "cursor s + ?n \<le> offset" by auto
    from less.prems n have len: "length (take ?n (drop (cursor s) content)) = ?n" by auto
    with less.prems have rd:
      "readEntryData s ?n = Some (take ?n (drop (cursor s) content), ?s')"
      by (simp add: readEntryData_def Let_def)
    from n True have "offset - cursor ?s' < offset - cursor s" by (simp add: min_def)
    moreover from less.prems have "entry_content ?s' = Some content" by simp
    moreover from n have "cursor ?s' \<le> offset" by simp
    ultimately have "advance max_chunk ?s' offset = (True, ?s'\<lparr>cursor := offset\<rparr>)"
      using less.hyps less.prems(2,4) by blast
    moreover from len n have "take ?n (drop (cursor s) content) \<noteq> []" by auto
    ultimately show ?thesis
      by (subst advance.simps) (simp only: True rd if_True if_False option.case prod.case, simp)
  qed
qed

lemma advance_no_data:
  assumes "entry_content s = None" and "cursor s < offset"
  shows "advance max_chunk s offset = (False, s)"
  using assms by (subst advance.simps) (simp add: readEntryData_def)

lemma read_window_no_data:
  assumes "entry_content s = None"
  shows "read_window max_chunk s left pos buffer = (False, buffer, s)"
  using assms by (subst read_window.simps) (simp add: readEntryData_def)

lemma take_length_take: "take (length (take n xs)) xs = take n xs"
  by (cases "n \<le> length xs") simp_all

lemma write_at_Nil: "write_at pos [] buffer = buffer"
  by (simp add: write_at_def)

lemma write_at_write_at:
  assumes "pos \<le> length buffer"
  shows "write_at (pos + length xs) ys (write_at pos xs buffer) = write_at pos (xs @ ys) buffer"
  using assms by (simp add: write_at_def ac_simps)

lemma length_write_at:
  "pos + length bytes \<le> length buffer \<Longrightarrow> length (write_at pos bytes buffer) = length buffer"
  by (simp add: write_at_def)

lemma read_window_reads:
  assumes "entry_content s = Some content" and "0 < max_chunk"
    and "pos + left \<le> length buffer"
  shows "read_window max_chunk s left pos buffer =
           (True, write_at pos (take left (drop (cursor s) content)) buffer,
            s\<lparr>cursor := cursor s + length (take left (drop (cursor s) content))\<rparr>)"
  using assms
proof (induction left arbitrary: s pos buffer rule: less_induct)
  case (less left)
  let ?rest = "drop (cursor s) content"
  let ?bytes = "take (min left max_chunk) ?rest"
  let ?s' = "s\<lparr>cursor := cursor s + length ?bytes\<rparr>"
  from less.prems have rd: "readEntryData s (min left max_chunk) = Some (?bytes, ?s')"
    by (simp add: readEntryData_def Let_def)
  show ?case
  proof (cases "0 < left - length ?bytes \<and> ?bytes \<noteq> []")
    case False
    then have "?bytes = take left ?rest"
    proof (cases "?bytes = []")
      case True
      with less.prems(2) have "left = 0 \<or> ?rest = []" by (cases "left = 0") auto
      then show ?thesis by auto
    next
      case nonempty: False
      with False have "left \<le> length ?bytes" by simp
      also have "length ?bytes \<le> min left max_chunk" by (simp only: length_take min.cobounded2)
      finally have "min left max_chunk = left" by simp
      then show ?thesis by simp
    qed
    then have eq: "?s' = s\<lparr>cursor := cursor s + length (take left ?rest)\<rparr>"
      "write_at pos ?bytes buffer = write_at pos (take left ?rest) buffer"
      by (simp_all only:)
    from False rd have "read_window max_chunk s left pos buffer
        = (True, write_at pos ?bytes buffer, ?s')"
      by (subst read_window.simps) (simp only: option.case prod.case if_False)
    then show ?thesis by (simp only: eq)
  next
    case True
    let ?k = "length ?bytes"
    from True have k: "0 < ?k" "?k < left" by auto
    from less.prems(1) have content: "entry_content ?s' = Some content" by simp
    from less.prems(3) k have fits: "pos + ?k \<le> length buffer" by simp
    then have room: "(pos + ?k) + (left - ?k) \<le> length (write_at pos ?bytes buffer)"
      using less.prems(3) k by (simp add: length_write_at)
    have "left - ?k < left" using k by simp
    from less.IH [OF this content less.prems(2) room]
    have rec: "read_window max_chunk ?s' (left - ?k) (pos + ?k) (write_at pos ?bytes buffer) =
          (True,
           write_at (pos + ?k) (take (left - ?k) (drop (cursor s + ?k) content))
             (write_at pos ?bytes buffer),
           s\<lparr>cursor := cursor s + ?k + length (take (left - ?k) (drop (cursor s + ?k) content))\<rparr>)"
      by simp
    have "?bytes = take ?k ?rest"
      by (simp only: take_length_take)
    moreover have "take left ?rest = take ?k ?rest @ take (left - ?k) (drop ?k ?rest)"
      using k take_add [of ?k "left - ?k" ?rest] by simp
    ultimately have split: "take left ?rest = ?bytes @ take (left - ?k) (drop ?k ?rest)"
      by simp
    have drops: "drop ?k ?rest = drop (cursor s + ?k) content"
      by (simp add: add.commute)
    from less.prems(3) have "pos \<le> length buffer" by simp
    from write_at_write_at [OF this, of ?bytes "take (left - ?k) (drop ?k ?rest)"] split
    have buf: "write_at (pos + ?k) (take (left - ?k) (drop (cursor s + ?k) content))
                 (write_at pos ?bytes buffer)
               = write_at pos (take left ?rest) buffer"
      by (simp only: drops)
    have len: "length (take left ?rest) = ?k + length (take (left - ?k) (drop (cursor s + ?k) content))"
      by (subst split) (simp only: length_append drops)
    from True rd have "read_window max_chunk s left pos buffer
        = read_window max_chunk ?s' (left - ?k) (pos + ?k) (write_at pos ?bytes buffer)"
      by (subst read_window.simps) (simp only: option.case prod.case if_True simp_thms)
    also note rec
    finally show ?thesis
      by (simp only: buf len add.assoc)
  qed
qed

lemma write_at_0:
  "write_at 0 bytes buffer = bytes @ drop (length bytes) buffer"
  by (simp add: write_at_def)

lemma ReadData_reads:
  assumes "entry_content s = Some content" and "0 < kMaximumDataChunkSize c"
    and "offset \<le> length content" and "len \<le> length buffer"
  shows "ReadData c s offset len buffer =
           (True, take len (drop offset content) @ drop (length (take len (drop offset content))) buffer,
            s\<lparr>cursor := offset + length (take len (drop offset content))\<rparr>)"
proof -
  let ?s0 = "if offset < cursor s then restart s else s"
  have s0: "entry_content ?s0 = Some content" "cursor ?s0 \<le> offset"
    using assms(1) by (simp_all add: restart_def)
  have adv: "advance (kMaximumDataChunkSize c) ?s0 offset = (True, ?s0\<lparr>cursor := offset\<rparr>)"
    using s0(1) assms(2) s0(2) assms(3) by (rule advance_reaches)
  have "entry_content (?s0\<lparr>cursor := offset\<rparr>) = Some content"
    using s0(1) by simp
  from read_window_reads [OF this assms(2), of 0 len buffer] assms(4)
  have rd: "read_window (kMaximumDataChunkSize c) (?s0\<lparr>cursor := offset\<rparr>) len 0 buffer =
          (True, write_at 0 (take len (drop offset content)) buffer,
           ?s0\<lparr>cursor := offset + length (take len (drop offset content))\<rparr>)"
    by simp
  have "?s0\<lparr>cursor := offset + length (take len (drop offset content))\<rparr>
        = s\<lparr>cursor := offset + length (take len (drop offset content))\<rparr>"
    by (simp add: restart_def)
  with adv rd show ?thesis
    by (simp add: ReadData_def write_at_0 del: length_take)
qed

lemma ReadData_in_range:
  assumes "entry_content s = Some content" and "0 < kMaximumDataChunkSize c"
    and "offset + len \<le> length content" and "len \<le> length buffer"
  shows "ReadData c s offset len buffer =
           (True, take len (drop offset content) @ drop len buffer,
            s\<lparr>cursor := offset + len\<rparr>)"
proof -
  from assms(3) have "length (take len (drop offset content)) = len" by simp
  with ReadData_reads [OF assms(1,2) _ assms(4), of offset] assms(3) show ?thesis
    by (simp del: length_take)
qed

text \<open>
  C1. For an entry with the given content, every request whose window lies within the
  content answers true and leaves the bytes \<open>[offset, offset + len)\<close> of the content at
  the start of its buffer, wherever the cursor stands (so also behind it, after a
  restart), and so do consecutive requests against the same session.
\<close>

theorem ReadData_returns_content_slices:
  assumes "entry_content s = Some content" and "0 < kMaximumDataChunkSize c"
    and "list_all (\<lambda>(offset, len, buffer).
                     offset + len \<le> length content \<and> len \<le> length buffer) requests"
  shows "ReadData_calls c s requests =
           map (\<lambda>(offset, len, buffer).
                  (True, take len (drop offset content) @ drop len buffer)) requests"
  using assms
proof (induction requests arbitrary: s)
  case Nil
  show ?case by simp
next
  case (Cons request requests)
  obtain offset len buffer where request: "request = (offset, len, buffer)"
    by (cases request) auto
  with Cons.prems(3) have here: "offset + len \<le> length content" "len \<le> length buffer"
    and later: "list_all (\<lambda>(offset, len, buffer).
                     offset + len \<le> length content \<and> len \<le> length buffer) requests"
    by simp_all
  from Cons.prems(1) have "entry_content (s\<lparr>cursor := offset + len\<rparr>) = Some content"
    by simp
  from Cons.IH [OF this Cons.prems(2) later]
    ReadData_in_range [OF Cons.prems(1,2) here]
  show ?case by (simp add: request)
qed

theorem ReadData_returns_content_slices_witness:
  "entry_content (test_session (Some [1, 2, 3, 4, 5, 6])) = Some [1, 2, 3, 4, 5, 6]
   \<and> 0 < kMaximumDataChunkSize test_constants
   \<and> list_all (\<lambda>(offset, len, buffer).
                   offset + len \<le> length [1, 2, 3, 4, 5, 6 :: 8 word] \<and> len \<le> length buffer)
        [(0, 6, [0, 0, 0, 0, 0, 0]), (0, 3, [0, 0, 0]), (3, 3, [0, 0, 0]), (2, 4, [0, 0, 0, 0])]
   \<and> ReadData_calls test_constants (test_session (Some [1, 2, 3, 4, 5, 6]))
        [(0, 6, [0, 0, 0, 0, 0, 0]), (0, 3, [0, 0, 0]), (3, 3, [0, 0, 0]), (2, 4, [0, 0, 0, 0])]
       = [(True, [1, 2, 3, 4, 5, 6]), (True, [1, 2, 3]), (True, [4, 5, 6]), (True, [3, 4, 5, 6])]"
proof -
  have content: "entry_content (test_session (Some [1, 2, 3, 4, 5, 6])) = Some [1, 2, 3, 4, 5, 6]"
    by (simp add: test_session_def)
  have chunk: "0 < kMaximumDataChunkSize test_constants"
    by (simp add: test_constants_def)
  have within: "list_all (\<lambda>(offset, len, buffer).
                   offset + len \<le> length [1, 2, 3, 4, 5, 6 :: 8 word] \<and> len \<le> length buffer)
        [(0, 6, [0, 0, 0, 0, 0, 0]), (0, 3, [0, 0, 0]), (3, 3, [0, 0, 0]), (2, 4, [0, 0, 0, 0])]"
    by simp
  from ReadData_returns_content_slices [OF content chunk within] content chunk within
  show ?thesis by simp
qed

text \<open>
  C2. A read at offset 0 with a length beyond the size of the entry answers true; the
  buffer then starts with the whole content, and every byte of it from the entry size on
  is the byte that was there before.
\<close>

theorem ReadData_beyond_entry_size:
  assumes "entry_content s = Some content" and "0 < kMaximumDataChunkSize c"
    and "length content < len" and "len \<le> length buffer"
  shows "fst (ReadData c s 0 len buffer) = True
         \<and> fst (snd (ReadData c s 0 len buffer)) = content @ drop (length content) buffer
         \<and> error_message (snd (snd (ReadData c s 0 len buffer))) = error_message s"
proof -
  from assms(3) have "take len content = content" by simp
  with ReadData_reads [OF assms(1,2) _ assms(4), of 0] show ?thesis
    by (simp del: length_take)
qed

theorem ReadData_beyond_entry_size_witness:
  "entry_content (test_session (Some [1, 2, 3])) = Some [1, 2, 3]
   \<and> 0 < kMaximumDataChunkSize test_constants
   \<and> length [1, 2, 3 :: 8 word] < 6 \<and> 6 \<le> length [9, 9, 9, 9, 9, 9 :: 8 word]
   \<and> fst (ReadData test_constants (test_session (Some [1, 2, 3])) 0 6 [9, 9, 9, 9, 9, 9]) = True
   \<and> fst (snd (ReadData test_constants (test_session (Some [1, 2, 3])) 0 6 [9, 9, 9, 9, 9, 9]))
       = [1, 2, 3, 9, 9, 9]"
proof -
  have content: "entry_content (test_session (Some [1, 2, 3])) = Some [1, 2, 3]"
    by (simp add: test_session_def)
  have chunk: "0 < kMaximumDataChunkSize test_constants"
    by (simp add: test_constants_def)
  have longer: "length [1, 2, 3 :: 8 word] < 6" and fits: "6 \<le> length [9, 9, 9, 9, 9, 9 :: 8 word]"
    by simp_all
  from ReadData_beyond_entry_size [OF content chunk longer fits] content chunk
  show ?thesis by simp
qed

text \<open>
  C3. When the chunk pipeline supplies no data for the entry, a read at any offset and
  of any length answers false, and the session's error message is the read error prefix
  followed by the decoder's error string: the same message for every offset.
\<close>

theorem ReadData_without_data_fails:
  assumes "entry_content s = None"
  shows "fst (ReadData c s offset len buffer) = False
         \<and> error_message (snd (snd (ReadData c s offset len buffer)))
             = Some (kArchiveReadDataErrorPrefix c @ lastError s)"
proof -
  let ?s0 = "if offset < cursor s then restart s else s"
  have s0: "entry_content ?s0 = None" "lastError ?s0 = lastError s"
    using assms by (simp_all add: restart_def)
  show ?thesis
  proof (cases "cursor ?s0 < offset")
    case True
    from advance_no_data [OF s0(1) True] s0(2) show ?thesis
      by (simp add: ReadData_def read_failure_def)
  next
    case False
    then have "advance (kMaximumDataChunkSize c) ?s0 offset = (True, ?s0)"
      by (subst advance.simps) simp
    with read_window_no_data [OF s0(1)] s0(2) show ?thesis
      by (simp add: ReadData_def read_failure_def)
  qed
qed

theorem ReadData_without_data_fails_witness:
  "entry_content (test_session None) = None
   \<and> fst (ReadData test_constants (test_session None) 0 10 [0, 0, 0, 0, 0, 0, 0, 0, 0, 0]) = False
   \<and> error_message (snd (snd (ReadData test_constants (test_session None) 0 10
                                  [0, 0, 0, 0, 0, 0, 0, 0, 0, 0])))
       = Some ''read error: no data''
   \<and> fst (ReadData test_constants (test_session None) 10 10 [0, 0, 0, 0, 0, 0, 0, 0, 0, 0]) = False
   \<and> error_message (snd (snd (ReadData test_constants (test_session None) 10 10
                                  [0, 0, 0, 0, 0, 0, 0, 0, 0, 0])))
       = Some ''read error: no data''"
proof -
  have none: "entry_content (test_session None) = None"
    by (simp add: test_session_def)
  from ReadData_without_data_fails [OF none, of test_constants 0]
    ReadData_without_data_fails [OF none, of test_constants 10] none
  show ?thesis by (simp add: test_constants_def test_session_def)
qed

end
